theory Spec2Isabelle
  imports Main "HOL-Library.Multiset"
begin

section \<open>Data model\<close>

text \<open>
  A package name is a Python \<open>str\<close>, modelled as \<open>string\<close>. A dependency graph is a
  Python \<open>dict\<close> from names to lists of names. It is modelled as an association list in
  insertion order (the order \<open>dict.items()\<close> iterates in); a lookup reads the first entry
  of a key, and a store keeps the keys distinct, as a \<open>dict\<close> does.
\<close>

type_synonym graph = "(string \<times> string list) list"

text \<open>\<open>d.get(k, dflt)\<close>\<close>

definition dict_get :: "('k \<times> 'v) list \<Rightarrow> 'k \<Rightarrow> 'v \<Rightarrow> 'v" where
  "dict_get d k dflt = (case map_of d k of Some v \<Rightarrow> v | None \<Rightarrow> dflt)"

text \<open>\<open>d[k] = v\<close>: an existing key keeps its position, a new key goes to the end.\<close>

fun dict_set :: "('k \<times> 'v) list \<Rightarrow> 'k \<Rightarrow> 'v \<Rightarrow> ('k \<times> 'v) list" where
  "dict_set [] k v = [(k, v)]"
| "dict_set ((k', v') # d) k v = (if k' = k then (k, v) # d else (k', v') # dict_set d k v)"

text \<open>
  A work stack of the source is a Python list used from its end (\<open>append\<close>, \<open>pop\<close>).
  It is modelled with the top of the stack at the head of the list: \<open>stack.pop()\<close> takes
  the head, and appending \<open>x1, ..., xn\<close> in this order leaves \<open>rev [x1, ..., xn]\<close> in
  front of the rest.
\<close>

definition push_all :: "'a list \<Rightarrow> 'a list \<Rightarrow> 'a list" where
  "push_all stack xs = rev xs @ stack"

text \<open>
  The names of a graph: its keys and the names in its values (\<open>all_nodes\<close> in the
  renderer).
\<close>

definition graph_names :: "graph \<Rightarrow> string set" where
  "graph_names g = fst ` set g \<union> \<Union> (set ` snd ` set g)"

section \<open>Python string operations\<close>

text \<open>
  A Python \<open>str\<close> is modelled as \<open>string\<close>, a list of \<open>char\<close>, one per code point, for
  texts whose code points are below 256. The functions below are the \<open>str\<close> methods the
  program calls, for the arguments it calls them with (separators and patterns are
  non-empty literals in the source).
\<close>

text \<open>\<open>s.startswith(p)\<close>\<close>

fun startswith :: "string \<Rightarrow> string \<Rightarrow> bool" where
  "startswith s [] = True"
| "startswith [] (p # ps) = False"
| "startswith (c # cs) (p # ps) = (c = p \<and> startswith cs ps)"

text \<open>
  \<open>s.split(sep)\<close> for a non-empty \<open>sep\<close>: the pieces between the occurrences of \<open>sep\<close>,
  found from the left without overlap; \<open>cur\<close> is the piece being read.
\<close>

function split_from :: "string \<Rightarrow> string \<Rightarrow> string \<Rightarrow> string list" where
  "split_from sep cur [] = [cur]"
| "split_from sep cur (c # cs) =
     (if startswith (c # cs) sep then cur # split_from sep [] (drop (length sep - 1) cs)
      else split_from sep (cur @ [c]) cs)"
  by pat_completeness auto
termination
  by (relation "measure (\<lambda>(sep, cur, s). length s)") auto

definition split_sep :: "string \<Rightarrow> string \<Rightarrow> string list" where
  "split_sep s sep = split_from sep [] s"

text \<open>\<open>s.replace(old, new)\<close> for a non-empty \<open>old\<close>.\<close>

function replace :: "string \<Rightarrow> string \<Rightarrow> string \<Rightarrow> string" where
  "replace [] old new = []"
| "replace (c # cs) old new =
     (if startswith (c # cs) old then new @ replace (drop (length old - 1) cs) old new
      else c # replace cs old new)"
  by pat_completeness auto
termination
  by (relation "measure (\<lambda>(s, old, new). length s)") auto

text \<open>
  \<open>c.isspace()\<close> for a code point below 256: the characters \<open>\t \n \v \f \r\<close>, the
  separators \<open>0x1c\<close> to \<open>0x1f\<close>, the space, \<open>0x85\<close> and \<open>0xa0\<close>.
\<close>

definition isspace :: "char \<Rightarrow> bool" where
  "isspace c =
     (let n = (of_char c :: nat)
      in (9 \<le> n \<and> n \<le> 13) \<or> (28 \<le> n \<and> n \<le> 32) \<or> n = 133 \<or> n = 160)"

text \<open>\<open>s.strip()\<close> and \<open>s.strip(chars)\<close>\<close>

definition strip :: "string \<Rightarrow> string" where
  "strip s = rev (dropWhile isspace (rev (dropWhile isspace s)))"

definition strip_chars :: "string \<Rightarrow> string \<Rightarrow> string" where
  "strip_chars s chars =
     rev (dropWhile (\<lambda>c. c \<in> set chars) (rev (dropWhile (\<lambda>c. c \<in> set chars) s)))"

text \<open>\<open>s.split()\<close>: the maximal runs of characters that are not whitespace.\<close>

fun split_ws_from :: "string \<Rightarrow> string \<Rightarrow> string list" where
  "split_ws_from cur [] = (if cur = [] then [] else [cur])"
| "split_ws_from cur (c # cs) =
     (if isspace c then (if cur = [] then split_ws_from [] cs else cur # split_ws_from [] cs)
      else split_ws_from (cur @ [c]) cs)"

definition split_ws :: "string \<Rightarrow> string list" where
  "split_ws s = split_ws_from [] s"

text \<open>
  \<open>s.split(sep)[0]\<close>. \<open>split_sep\<close> never returns the empty list, so the index is in range;
  the piece before the first \<open>sep\<close> is the first piece.
\<close>

definition first_piece :: "string \<Rightarrow> string \<Rightarrow> string" where
  "first_piece s sep = (case split_sep s sep of [] \<Rightarrow> [] | piece # _ \<Rightarrow> piece)"

text \<open>\<open>s.split(sep, 1)\<close> for a one-character \<open>sep\<close> that occurs in \<open>s\<close>: the two pieces.\<close>

definition split_once :: "string \<Rightarrow> char \<Rightarrow> string \<times> string" where
  "split_once s sep = (takeWhile (\<lambda>c. c \<noteq> sep) s, drop 1 (dropWhile (\<lambda>c. c \<noteq> sep) s))"

section \<open>Stage 2 and the test fixture: the dependency sources\<close>

text \<open>
  \<open>sys.exit(1)\<close> after an error message ends the run; it is modelled as an error value.
  \<open>PackageNotFound\<close> is the exit of \<open>extract_dependencies\<close>, \<open>SourceFetchError\<close> the exit
  of \<open>download_packages\<close>, \<open>FileError\<close> the exception of \<open>open\<close> in \<open>load_test_graph\<close>.
\<close>

datatype error = PackageNotFound string | SourceFetchError | FileError

text \<open>
  \<open>extract_dependencies(package, packages_text)\<close>: the first stanza that starts with
  \<open>"Package: " + package\<close> decides; its first line that starts with \<open>"Depends: "\<close>
  gives the list, and a stanza without such a line gives \<open>[]\<close>.
\<close>

fun depends_of_lines :: "string list \<Rightarrow> string list" where
  "depends_of_lines [] = []"
| "depends_of_lines (line # lines) =
     (if startswith line ''Depends: '' then
        (let raw = strip (replace line ''Depends: '' '''')
         in map (\<lambda>d. strip_chars (first_piece d '' '') '','') (split_sep raw '',''))
      else depends_of_lines lines)"

fun extract_from_blocks :: "string \<Rightarrow> string list \<Rightarrow> error + string list" where
  "extract_from_blocks package [] = Inl (PackageNotFound package)"
| "extract_from_blocks package (block # blocks) =
     (if startswith block (''Package: '' @ package)
      then Inr (depends_of_lines (split_sep block ''\<newline>''))
      else extract_from_blocks package blocks)"

definition extract_dependencies :: "string \<Rightarrow> string \<Rightarrow> error + string list" where
  "extract_dependencies package packages_text =
     extract_from_blocks package (split_sep packages_text ''\<newline>\<newline>'')"

text \<open>
  \<open>load_test_graph(path)\<close>, given the lines that iterating over the opened file yields
  (each with its line end, if it has one).
\<close>

definition load_test_line :: "graph \<Rightarrow> string \<Rightarrow> graph" where
  "load_test_line graph line =
     (if CHR '':'' \<notin> set line then graph
      else (let (pkg, deps) = split_once line CHR '':'';
                pkg = strip pkg;
                deps = (if strip deps \<noteq> [] then split_ws (strip deps) else [])
            in dict_set graph pkg deps))"

definition load_test_graph :: "string list \<Rightarrow> graph" where
  "load_test_graph file_lines = foldl load_test_line [] file_lines"

text \<open>
  What the program reads through its \<open>repo\<close> argument: the lines of the file at that
  path (\<open>None\<close> when it cannot be opened), and the decompressed text of the index under
  that URL (\<open>None\<close> when the download or the decompression fails).
\<close>

record repo =
  read_lines :: "string list option"
  packages_gz :: "string option"

definition download_packages :: "repo \<Rightarrow> error + string" where
  "download_packages repo_url =
     (case packages_gz repo_url of None \<Rightarrow> Inl SourceFetchError | Some text \<Rightarrow> Inr text)"

section \<open>Stage 3: the graph builder (\<open>build_graph\<close>)\<close>

text \<open>
  The inner function \<open>get_deps\<close> closes over \<open>full_graph\<close> in test mode and over
  \<open>packages_text\<close> and the dictionary \<open>cache\<close> in live mode. The closure's captured data
  is a \<open>source\<close>; the cache, which \<open>get_deps\<close> updates, is passed and returned.
\<close>

datatype source = TestSource graph | LiveSource string

type_synonym cache = "(string \<times> string list) list"

fun get_deps :: "source \<Rightarrow> cache \<Rightarrow> string \<Rightarrow> error + (string list \<times> cache)" where
  "get_deps (TestSource full_graph) cache p = Inr (dict_get full_graph p [], cache)"
| "get_deps (LiveSource packages_text) cache pkg =
     (case map_of cache pkg of
        Some d \<Rightarrow> Inr (d, cache)
      | None \<Rightarrow>
         (case extract_dependencies pkg packages_text of
            Inl e \<Rightarrow> Inl e
          | Inr d \<Rightarrow> Inr (d, dict_set cache pkg d)))"

text \<open>
  The line the builder prints when it meets a node of \<open>in_stack\<close>; the other output of
  the program is not modelled.
\<close>

datatype event = CycleReport string

text \<open>
  The state of the loop: the work stack (top at the head), \<open>visited\<close>, \<open>in_stack\<close>,
  \<open>result_graph\<close>, the cache of \<open>get_deps\<close>, and the cycle reports printed so far.
\<close>

type_synonym builder =
  "(string \<times> int) list \<times> string set \<times> string set \<times> graph \<times> cache \<times> event list"

text \<open>One iteration of the \<open>while stack:\<close> loop (the stack is not empty when it runs).\<close>

fun build_step :: "source \<Rightarrow> int \<Rightarrow> builder \<Rightarrow> error + builder" where
  "build_step src max_depth ([], visited, in_stack, result_graph, cache, reports) =
     Inr ([], visited, in_stack, result_graph, cache, reports)"
| "build_step src max_depth
       ((node, depth) # stack, visited, in_stack, result_graph, cache, reports) =
     (if depth > max_depth then Inr (stack, visited, in_stack, result_graph, cache, reports)
      else if node \<in> visited then Inr (stack, visited, in_stack, result_graph, cache, reports)
      else if node \<in> in_stack then
        Inr (stack, visited, in_stack, result_graph, cache, reports @ [CycleReport node])
      else
        (case get_deps src cache node of
           Inl e \<Rightarrow> Inl e
         | Inr (deps, cache') \<Rightarrow>
             Inr (push_all stack (map (\<lambda>dep. (dep, depth + 1)) (rev deps)),
                  insert node visited,
                  insert node in_stack - {node},
                  dict_set result_graph node deps,
                  cache', reports)))"

definition stack_of :: "builder \<Rightarrow> (string \<times> int) list" where
  "stack_of st = fst st"

text \<open>The termination measure: the multiset of the remaining depths of the stack entries.\<close>

definition build_measure :: "int \<Rightarrow> builder \<Rightarrow> nat multiset" where
  "build_measure max_depth st =
     mset (map (\<lambda>(node, depth). nat (max_depth + 1 - depth)) (stack_of st))"

function build_loop :: "source \<Rightarrow> int \<Rightarrow> builder \<Rightarrow> error + builder" where
  "build_loop src max_depth st =
     (if stack_of st = [] then Inr st
      else (case build_step src max_depth st of
              Inl e \<Rightarrow> Inl e
            | Inr st' \<Rightarrow> build_loop src max_depth st'))"
  by pat_completeness auto

lemma wf_build:
  "wf (inv_image {(M, N :: nat multiset). M < N}
        (\<lambda>(src :: source, max_depth, st). build_measure max_depth st))"
proof (rule wf_inv_image)
  show "wf {(M, N :: nat multiset). M < N}"
    using wfp_less_multiset [where ?'a = nat] by (simp add: wfp_def)
qed

lemma build_step_measure:
  assumes "stack_of st \<noteq> []" and "build_step src max_depth st = Inr st'"
  shows "build_measure max_depth st' < build_measure max_depth st"
proof -
  obtain stack0 visited in_stack result_graph cache reports
    where st: "st = (stack0, visited, in_stack, result_graph, cache, reports)"
    by (cases st)
  with assms(1) obtain node depth stack where s0: "stack0 = (node, depth) # stack"
    by (cases stack0) (auto simp: stack_of_def)
  let ?w = "\<lambda>(node :: string, depth). nat (max_depth + 1 - depth)"
  show ?thesis
  proof (cases "depth > max_depth \<or> node \<in> visited \<or> node \<in> in_stack")
    case True
    with assms(2) have "stack_of st' = stack"
      by (auto simp: st s0 stack_of_def split: if_splits)
    moreover have "multp (<) (mset (map ?w stack) + {#})
                     (mset (map ?w stack) + {#nat (max_depth + 1 - depth)#})"
      by (intro one_step_implies_multp) auto
    ultimately show ?thesis
      by (simp add: build_measure_def st s0 stack_of_def less_multiset_def)
  next
    case False
    with assms(2) obtain deps cache' where
      g: "get_deps src cache node = Inr (deps, cache')" and
      s': "stack_of st' = push_all stack (map (\<lambda>dep. (dep, depth + 1)) (rev deps))"
      by (auto simp: st s0 stack_of_def split: sum.splits)
    let ?K = "mset (map ?w (map (\<lambda>dep. (dep, depth + 1)) deps))"
    have m': "build_measure max_depth st' = mset (map ?w stack) + ?K"
      by (simp add: build_measure_def s' push_all_def rev_map [symmetric])
    have m: "build_measure max_depth st = mset (map ?w stack) + {#nat (max_depth + 1 - depth)#}"
      by (simp add: build_measure_def st s0 stack_of_def)
    have "\<forall>k \<in># ?K. \<exists>j \<in># {#nat (max_depth + 1 - depth)#}. k < j"
      using False by auto
    then have "multp (<) (mset (map ?w stack) + ?K)
                 (mset (map ?w stack) + {#nat (max_depth + 1 - depth)#})"
      by (intro one_step_implies_multp) auto
    then show ?thesis by (simp add: m m' less_multiset_def)
  qed
qed

termination build_loop
proof (relation "inv_image {(M, N :: nat multiset). M < N}
                   (\<lambda>(src :: source, max_depth, st). build_measure max_depth st)")
  show "wf (inv_image {(M, N :: nat multiset). M < N}
              (\<lambda>(src :: source, max_depth, st). build_measure max_depth st))"
    by (rule wf_build)
next
  fix src :: source and max_depth :: int and st st' :: builder
  assume "stack_of st \<noteq> []" "build_step src max_depth st = Inr st'"
  then have "build_measure max_depth st' < build_measure max_depth st"
    by (rule build_step_measure)
  then show "((src, max_depth, st'), (src, max_depth, st))
    \<in> inv_image {(M, N :: nat multiset). M < N}
        (\<lambda>(src :: source, max_depth, st). build_measure max_depth st)"
    by simp
qed

declare build_loop.simps [simp del]

text \<open>
  The source that \<open>build_graph\<close> sets up from its arguments \<open>repo\<close> and \<open>test_mode\<close>.
\<close>

definition open_source :: "repo \<Rightarrow> bool \<Rightarrow> error + source" where
  "open_source repo test_mode =
     (if test_mode then
        (case read_lines repo of
           None \<Rightarrow> Inl FileError
         | Some file_lines \<Rightarrow> Inr (TestSource (load_test_graph file_lines)))
      else
        (case download_packages repo of
           Inl e \<Rightarrow> Inl e
         | Inr packages_text \<Rightarrow> Inr (LiveSource packages_text)))"

definition build_init :: "string \<Rightarrow> builder" where
  "build_init start_pkg = ([(start_pkg, 1)], {}, {}, [], [], [])"

text \<open>
  \<open>build_graph\<close> returns \<open>result_graph\<close>; the model returns with it the cycle reports
  that were printed.
\<close>

definition build_graph ::
  "string \<Rightarrow> repo \<Rightarrow> bool \<Rightarrow> int \<Rightarrow> error + (graph \<times> event list)" where
  "build_graph start_pkg repo test_mode max_depth =
     (case open_source repo test_mode of
        Inl e \<Rightarrow> Inl e
      | Inr src \<Rightarrow>
         (case build_loop src max_depth (build_init start_pkg) of
            Inl e \<Rightarrow> Inl e
          | Inr (stack, visited, in_stack, result_graph, cache, reports) \<Rightarrow>
              Inr (result_graph, reports)))"

section \<open>Stage 4: the load order (\<open>compute_load_order\<close>)\<close>

text \<open>
  The loop of \<open>compute_load_order\<close>, on the stack of pairs \<open>(node, expanded)\<close>, the sets
  \<open>visited\<close> and \<open>in_stack\<close> and the list \<open>order\<close>; \<open>order.append(node)\<close> is
  \<open>order @ [node]\<close>. The result \<open>None\<close> of the source (a cycle) is \<open>None\<close>; a returned list
  is \<open>Some\<close>. The loop terminates: a first visit takes a name out of the finitely many
  names (of the graph and of the stack) that are neither visited nor in \<open>in_stack\<close>, and
  every other iteration shortens the stack.
\<close>

function load_loop ::
  "graph \<Rightarrow> (string \<times> bool) list \<Rightarrow> string set \<Rightarrow> string set \<Rightarrow> string list
    \<Rightarrow> string list option" where
  "load_loop graph [] visited in_stack order = Some (rev order)"
| "load_loop graph ((node, expanded) # stack) visited in_stack order =
     (if node \<in> in_stack \<and> \<not> expanded then None
      else if node \<in> visited then load_loop graph stack visited in_stack order
      else if expanded then
        load_loop graph stack (insert node visited) (in_stack - {node}) (order @ [node])
      else
        load_loop graph
          (push_all ((node, True) # stack) (map (\<lambda>dep. (dep, False)) (dict_get graph node [])))
          visited (insert node in_stack) order)"
  by pat_completeness auto

lemma dict_get_names: "set (dict_get g n []) \<subseteq> graph_names g"
proof (cases "map_of g n")
  case None
  then show ?thesis by (simp add: dict_get_def)
next
  case (Some ds)
  then have "(n, ds) \<in> set g" by (rule map_of_SomeD)
  then have "set ds \<subseteq> \<Union> (set ` snd ` set g)" by force
  with Some show ?thesis by (auto simp: dict_get_def graph_names_def)
qed

lemma finite_graph_names: "finite (graph_names g)"
  by (simp add: graph_names_def)

definition load_measure ::
  "graph \<times> (string \<times> bool) list \<times> string set \<times> string set \<times> string list
    \<Rightarrow> string set \<times> nat" where
  "load_measure = (\<lambda>(g, stack, visited, in_stack, order).
     ((graph_names g \<union> fst ` set stack) - (visited \<union> in_stack), length stack))"

termination load_loop
proof (relation "inv_image (finite_psubset <*lex*> less_than) load_measure")
  show "wf (inv_image (finite_psubset <*lex*> less_than) load_measure)"
    by (intro wf_inv_image wf_lex_prod wf_finite_psubset wf_less_than)
next
  fix graph :: graph and node :: string and expanded stack visited in_stack
    and order :: "string list"
  assume "\<not> (node \<in> in_stack \<and> \<not> expanded)" "node \<in> visited"
  then show "((graph, stack, visited, in_stack, order),
              (graph, (node, expanded) # stack, visited, in_stack, order))
    \<in> inv_image (finite_psubset <*lex*> less_than) load_measure"
    by (auto simp: load_measure_def finite_psubset_def finite_graph_names)
next
  fix graph :: graph and node :: string and expanded stack visited in_stack
    and order :: "string list"
  assume "\<not> (node \<in> in_stack \<and> \<not> expanded)" "node \<notin> visited" "expanded"
  then show "((graph, stack, insert node visited, in_stack - {node}, order @ [node]),
              (graph, (node, expanded) # stack, visited, in_stack, order))
    \<in> inv_image (finite_psubset <*lex*> less_than) load_measure"
    by (auto simp: load_measure_def finite_psubset_def finite_graph_names)
next
  fix graph :: graph and node :: string and expanded stack visited in_stack
    and order :: "string list"
  assume a: "\<not> (node \<in> in_stack \<and> \<not> expanded)" "node \<notin> visited" "\<not> expanded"
  let ?new = "push_all ((node, True) # stack)
                (map (\<lambda>dep. (dep, False)) (dict_get graph node []))"
  have names: "fst ` set ?new \<subseteq> graph_names graph \<union> fst ` set ((node, expanded) # stack)"
    using dict_get_names [of graph node] by (auto simp: push_all_def)
  have "(graph_names graph \<union> fst ` set ?new) - (visited \<union> insert node in_stack)
      \<subset> (graph_names graph \<union> fst ` set ((node, expanded) # stack)) - (visited \<union> in_stack)"
    using names a by auto
  then show "((graph, ?new, visited, insert node in_stack, order),
              (graph, (node, expanded) # stack, visited, in_stack, order))
    \<in> inv_image (finite_psubset <*lex*> less_than) load_measure"
    by (simp add: load_measure_def finite_psubset_def finite_graph_names)
qed

definition compute_load_order :: "graph \<Rightarrow> string \<Rightarrow> string list option" where
  "compute_load_order graph start = load_loop graph [(start, False)] {} {} []"

section \<open>Stage 5: the Mermaid renderer\<close>

text \<open>The character class \<open>[0-9A-Za-z_]\<close> of the regular expression, and \<open>c.isdigit()\<close>
  on a character of that class.\<close>

definition isdigit :: "char \<Rightarrow> bool" where
  "isdigit c = (let n = (of_char c :: nat) in 48 \<le> n \<and> n \<le> 57)"

definition is_id_char :: "char \<Rightarrow> bool" where
  "is_id_char c =
     (let n = (of_char c :: nat)
      in (48 \<le> n \<and> n \<le> 57) \<or> (65 \<le> n \<and> n \<le> 90) \<or> (97 \<le> n \<and> n \<le> 122) \<or> n = 95)"

text \<open>\<open>_make_mermaid_id\<close> (an Isabelle name cannot start with an underscore).\<close>

definition make_mermaid_id :: "string \<Rightarrow> string" where
  "make_mermaid_id name =
     (let safe = map (\<lambda>c. if is_id_char c then c else CHR ''_'') name;
          safe = (if safe = [] then ''pkg'' else safe)
      in (case safe of
            [] \<Rightarrow> safe
          | c # _ \<Rightarrow> if isdigit c then ''pkg_'' @ safe else safe))"

text \<open>\<open>"\n".join(lines)\<close>\<close>

fun join_lines :: "string list \<Rightarrow> string" where
  "join_lines [] = []"
| "join_lines [l] = l"
| "join_lines (l # ls) = l @ ''\<newline>'' @ join_lines ls"

text \<open>The formatted lines: a node declaration and an edge.\<close>

definition node_line :: "string \<Rightarrow> string \<Rightarrow> string" where
  "node_line ident name = ''    '' @ ident @ ''['' @ [CHR 0x22] @ name @ [CHR 0x22] @ '']''"

definition edge_line :: "string \<Rightarrow> string \<Rightarrow> string" where
  "edge_line pkg_id dep_id = ''    '' @ pkg_id @ '' --> '' @ dep_id"

text \<open>
  \<open>id_map\<close> is a dictionary over \<open>all_nodes\<close>, the keys of the graph and the names in
  its values; a lookup \<open>id_map[name]\<close> of a name outside it raises \<open>KeyError\<close>, which is
  \<open>None\<close> in the model.
\<close>

definition id_map_of :: "graph \<Rightarrow> string \<Rightarrow> string option" where
  "id_map_of graph name =
     (if name \<in> graph_names graph then Some (make_mermaid_id name) else None)"

text \<open>The state of the rendering loops: \<open>lines\<close>, \<open>emitted_nodes\<close>, \<open>emitted_edges\<close>.\<close>

type_synonym renderer = "string list \<times> string set \<times> (string \<times> string) set"

fun declare_node :: "string \<Rightarrow> string \<Rightarrow> renderer \<Rightarrow> renderer" where
  "declare_node ident name (lines, emitted_nodes, emitted_edges) =
     (if ident \<notin> emitted_nodes
      then (lines @ [node_line ident name], insert ident emitted_nodes, emitted_edges)
      else (lines, emitted_nodes, emitted_edges))"

fun declare_edge :: "string \<Rightarrow> string \<Rightarrow> renderer \<Rightarrow> renderer" where
  "declare_edge pkg_id dep_id (lines, emitted_nodes, emitted_edges) =
     (if (pkg_id, dep_id) \<in> emitted_edges then (lines, emitted_nodes, emitted_edges)
      else (lines @ [edge_line pkg_id dep_id], emitted_nodes,
            insert (pkg_id, dep_id) emitted_edges))"

text \<open>The inner loop \<open>for dep in deps\<close> and the outer loop \<open>for pkg, deps in graph.items()\<close>.\<close>

fun render_deps ::
  "(string \<Rightarrow> string option) \<Rightarrow> string \<Rightarrow> string list \<Rightarrow> renderer \<Rightarrow> renderer option" where
  "render_deps id_map pkg_id [] st = Some st"
| "render_deps id_map pkg_id (dep # deps) st =
     (case id_map dep of
        None \<Rightarrow> None
      | Some dep_id \<Rightarrow>
          render_deps id_map pkg_id deps (declare_edge pkg_id dep_id (declare_node dep_id dep st)))"

fun render_items ::
  "(string \<Rightarrow> string option) \<Rightarrow> graph \<Rightarrow> renderer \<Rightarrow> renderer option" where
  "render_items id_map [] st = Some st"
| "render_items id_map ((pkg, deps) # items) st =
     (case id_map pkg of
        None \<Rightarrow> None
      | Some pkg_id \<Rightarrow>
         (case render_deps id_map pkg_id deps (declare_node pkg_id pkg st) of
            None \<Rightarrow> None
          | Some st' \<Rightarrow> render_items id_map items st'))"

definition graph_to_mermaid :: "graph \<Rightarrow> string \<Rightarrow> string option" where
  "graph_to_mermaid graph root =
     (let id_map = id_map_of graph;
          root_id = (case id_map root of Some i \<Rightarrow> i | None \<Rightarrow> make_mermaid_id root);
          lines = [''graph TD'', node_line root_id root]
      in (case render_items id_map graph (lines, {root_id}, {}) of
            None \<Rightarrow> None
          | Some (lines, emitted_nodes, emitted_edges) \<Rightarrow>
              Some (join_lines
                (lines @ [''class '' @ root_id @ '' root;'',
                          ''classDef root fill:#f9f,stroke:#333,stroke-width:2px;'']))))"

section \<open>Properties of the sequencer\<close>

text \<open>
  The dependency edges of a graph: \<open>node \<rightarrow> dep\<close> when \<open>dep\<close> is listed in
  \<open>graph.get(node, [])\<close>, the list the loop reads.
\<close>

definition edges :: "graph \<Rightarrow> (string \<times> string) set" where
  "edges g = {(node, dep). dep \<in> set (dict_get g node [])}"

text \<open>\<open>precedes a b xs\<close>: \<open>b\<close> occurs in \<open>xs\<close> strictly after the first \<open>a\<close>.\<close>

fun precedes :: "'a \<Rightarrow> 'a \<Rightarrow> 'a list \<Rightarrow> bool" where
  "precedes a b [] = False"
| "precedes a b (x # xs) = (if x = a then b \<in> set xs else precedes a b xs)"

text \<open>The fixtures of the scenarios, as graphs.\<close>

definition graph_abc :: graph where
  "graph_abc = [(''A'', [''B'', ''C'']), (''B'', [''C'']), (''C'', [])]"

definition graph_ab_cycle :: graph where
  "graph_ab_cycle = [(''A'', [''B'']), (''B'', [''A''])]"

subsection \<open>Invariants of the sequencer's loop\<close>

text \<open>
  \<open>deps_covered g seen stack\<close>: every entry \<open>(n, True)\<close> of the stack has each of its
  dependencies either visited or named by an entry above it. \<open>deps_after g xs\<close>: every
  element of \<open>xs\<close> has all its dependencies later in \<open>xs\<close>.
\<close>

fun deps_covered :: "graph \<Rightarrow> string set \<Rightarrow> (string \<times> bool) list \<Rightarrow> bool" where
  "deps_covered g seen [] = True"
| "deps_covered g seen ((n, b) # rest) =
     ((b \<longrightarrow> set (dict_get g n []) \<subseteq> seen) \<and> deps_covered g (insert n seen) rest)"

fun deps_after :: "graph \<Rightarrow> string list \<Rightarrow> bool" where
  "deps_after g [] = True"
| "deps_after g (n # rest) = (set (dict_get g n []) \<subseteq> set rest \<and> deps_after g rest)"

definition open_nodes :: "(string \<times> bool) list \<Rightarrow> string list" where
  "open_nodes stack = map fst (filter snd stack)"

definition start_last :: "string \<Rightarrow> (string \<times> bool) list \<Rightarrow> string list \<Rightarrow> bool" where
  "start_last start stack order =
     ((stack = [(start, False)] \<and> order = []) \<or>
      (stack \<noteq> [] \<and> last stack = (start, True) \<and> start \<notin> set order) \<or>
      (stack = [] \<and> order \<noteq> [] \<and> last order = start))"

definition load_inv ::
  "graph \<Rightarrow> string \<Rightarrow> (string \<times> bool) list \<Rightarrow> string set \<Rightarrow> string set \<Rightarrow> string list
    \<Rightarrow> bool" where
  "load_inv g start stack visited in_stack order =
     (set order = visited \<and> distinct order \<and> visited \<inter> in_stack = {} \<and>
      set (open_nodes stack) \<subseteq> in_stack \<and> distinct (open_nodes stack) \<and>
      deps_covered g visited stack \<and> deps_after g (rev order) \<and>
      start_last start stack order)"

definition load_post :: "graph \<Rightarrow> string \<Rightarrow> string list \<Rightarrow> bool" where
  "load_post g start xs = (xs \<noteq> [] \<and> hd xs = start \<and> distinct xs \<and> deps_after g xs)"

section \<open>Properties of the builder\<close>

text \<open>
  The states of the builder at the iteration boundaries of its loop: the initial state,
  and every state that an iteration of the loop body reaches from one with a non-empty
  stack.
\<close>

inductive build_reach :: "source \<Rightarrow> int \<Rightarrow> string \<Rightarrow> builder \<Rightarrow> bool"
  for src :: source and max_depth :: int and start_pkg :: string where
  reach_init: "build_reach src max_depth start_pkg (build_init start_pkg)"
| reach_step: "build_reach src max_depth start_pkg st \<Longrightarrow> stack_of st \<noteq> [] \<Longrightarrow>
     build_step src max_depth st = Inr st' \<Longrightarrow> build_reach src max_depth start_pkg st'"

text \<open>The components of a builder state.\<close>

definition visited_of :: "builder \<Rightarrow> string set" where
  "visited_of st =
     (case st of (stack, visited, in_stack, result_graph, cache, reports) \<Rightarrow> visited)"

definition in_stack_of :: "builder \<Rightarrow> string set" where
  "in_stack_of st =
     (case st of (stack, visited, in_stack, result_graph, cache, reports) \<Rightarrow> in_stack)"

definition graph_of :: "builder \<Rightarrow> graph" where
  "graph_of st =
     (case st of (stack, visited, in_stack, result_graph, cache, reports) \<Rightarrow> result_graph)"

definition cache_of :: "builder \<Rightarrow> cache" where
  "cache_of st =
     (case st of (stack, visited, in_stack, result_graph, cache, reports) \<Rightarrow> cache)"

definition reports_of :: "builder \<Rightarrow> event list" where
  "reports_of st =
     (case st of (stack, visited, in_stack, result_graph, cache, reports) \<Rightarrow> reports)"

text \<open>
  The dependency list a source holds for a name (the empty list where the live index
  has no stanza for it), and the names within a depth of the start package: the start
  has depth 1, a dependency of a name of depth \<open>d\<close> has depth \<open>d + 1\<close>.
\<close>

fun source_deps :: "source \<Rightarrow> string \<Rightarrow> string list" where
  "source_deps (TestSource full_graph) p = dict_get full_graph p []"
| "source_deps (LiveSource packages_text) p =
     (case extract_dependencies p packages_text of Inl e \<Rightarrow> [] | Inr d \<Rightarrow> d)"

fun within_depth :: "source \<Rightarrow> string \<Rightarrow> nat \<Rightarrow> string set" where
  "within_depth src start_pkg 0 = {}"
| "within_depth src start_pkg (Suc d) =
     insert start_pkg (\<Union> (set ` source_deps src ` within_depth src start_pkg d))"

text \<open>The cache of the live mode holds answers of \<open>extract_dependencies\<close> only.\<close>

fun cache_ok :: "source \<Rightarrow> cache \<Rightarrow> bool" where
  "cache_ok (TestSource full_graph) cache = True"
| "cache_ok (LiveSource packages_text) cache =
     (\<forall>pkg d. map_of cache pkg = Some d \<longrightarrow> extract_dependencies pkg packages_text = Inr d)"

text \<open>The invariant of the builder's loop.\<close>

definition build_inv :: "source \<Rightarrow> int \<Rightarrow> string \<Rightarrow> builder \<Rightarrow> bool" where
  "build_inv src max_depth start_pkg st =
     (in_stack_of st = {} \<and> fst ` set (graph_of st) = visited_of st \<and> reports_of st = [] \<and>
      cache_ok src (cache_of st) \<and>
      (\<forall>(node, depth) \<in> set (stack_of st).
          1 \<le> depth \<and> node \<in> within_depth src start_pkg (nat depth)) \<and>
      visited_of st \<subseteq> within_depth src start_pkg (nat max_depth) \<and>
      (\<forall>node \<in> visited_of st. map_of (graph_of st) node = Some (source_deps src node)))"

text \<open>
  The fixtures of the scenarios: the lines that iterating over the fixture file yields,
  each with its line end, and the files as the program reads them.
\<close>

definition abcd_lines :: "string list" where
  "abcd_lines = [''A: B C\<newline>'', ''B: C\<newline>'', ''C:\<newline>'', ''D:\<newline>'']"

definition cycle_lines :: "string list" where
  "cycle_lines = [''A: B\<newline>'', ''B: A\<newline>'']"

definition chain_lines :: "string list" where
  "chain_lines = [''A: B\<newline>'', ''B: C\<newline>'', ''C: D\<newline>'']"

definition fixture_abcd :: repo where
  "fixture_abcd = \<lparr>read_lines = Some abcd_lines, packages_gz = None\<rparr>"

definition fixture_cycle :: repo where
  "fixture_cycle = \<lparr>read_lines = Some cycle_lines, packages_gz = None\<rparr>"

definition fixture_chain :: repo where
  "fixture_chain = \<lparr>read_lines = Some chain_lines, packages_gz = None\<rparr>"

text \<open>An index text with a stanza for \<open>foobar\<close> before the stanza for \<open>foo\<close>.\<close>

definition index_foobar_foo :: string where
  "index_foobar_foo =
     ''Package: foobar\<newline>Version: 1.0\<newline>Depends: libx\<newline>\<newline>'' @
     ''Package: foo\<newline>Depends: liby\<newline>''"

text \<open>The first line of a stanza.\<close>

definition first_line :: "string \<Rightarrow> string" where
  "first_line block = takeWhile (\<lambda>c. c \<noteq> CHR ''\<newline>'') block"

lemma deps_covered_mono:
  "deps_covered g seen stack \<Longrightarrow> seen \<subseteq> seen' \<Longrightarrow> deps_covered g seen' stack"
proof (induction stack arbitrary: seen seen')
  case Nil
  then show ?case by simp
next
  case (Cons e stack)
  obtain n b where e: "e = (n, b)" by (cases e)
  from Cons.prems have "deps_covered g (insert n seen) stack" by (simp add: e)
  moreover from Cons.prems have "insert n seen \<subseteq> insert n seen'" by auto
  ultimately have "deps_covered g (insert n seen') stack" by (rule Cons.IH)
  with Cons.prems show ?case by (auto simp: e)
qed

lemma deps_covered_push:
  "deps_covered g (seen \<union> set ds) stack \<Longrightarrow>
   deps_covered g seen (rev (map (\<lambda>d. (d, False)) ds) @ stack)"
proof (induction ds arbitrary: stack)
  case Nil
  then show ?case by simp
next
  case (Cons d ds)
  have "deps_covered g (seen \<union> set ds) ((d, False) # stack)"
    using Cons.prems by (simp add: insert_commute Un_commute) 
  then have "deps_covered g seen (rev (map (\<lambda>d. (d, False)) ds) @ (d, False) # stack)"
    by (rule Cons.IH)
  then show ?case by simp
qed

lemma open_nodes_push:
  "open_nodes (push_all ((n, True) # stack) (map (\<lambda>d. (d, False)) ds)) = n # open_nodes stack"
  by (simp add: open_nodes_def push_all_def filter_map comp_def)

lemma load_inv_skip:
  assumes "load_inv g start ((node, expanded) # stack) visited in_stack order"
    and "node \<in> visited"
  shows "load_inv g start stack visited in_stack order"
proof -
  from assms have cov: "deps_covered g (insert node visited) stack"
    by (simp add: load_inv_def)
  from assms have "insert node visited = visited" by auto
  with cov have "deps_covered g visited stack" by simp
  moreover have "start_last start stack order"
    using assms by (auto simp: load_inv_def start_last_def split: if_splits)
  moreover have "set (open_nodes stack) \<subseteq> in_stack" "distinct (open_nodes stack)"
    using assms by (auto simp: load_inv_def open_nodes_def split: if_splits)
  ultimately show ?thesis using assms by (simp add: load_inv_def)
qed

lemma load_inv_finish:
  assumes inv: "load_inv g start ((node, True) # stack) visited in_stack order"
    and nv: "node \<notin> visited"
  shows "load_inv g start stack (insert node visited) (in_stack - {node}) (order @ [node])"
proof -
  from inv have opn: "node \<notin> set (open_nodes stack)" "distinct (open_nodes stack)"
    "set (open_nodes stack) \<subseteq> in_stack"
    by (auto simp: load_inv_def open_nodes_def)
  from inv have deps: "set (dict_get g node []) \<subseteq> visited"
    and cov: "deps_covered g (insert node visited) stack"
    by (simp_all add: load_inv_def)
  from inv have ord: "set order = visited" "distinct order" "deps_after g (rev order)"
    by (simp_all add: load_inv_def)
  have "start_last start stack (order @ [node])"
  proof (cases stack)
    case Nil
    with inv show ?thesis by (auto simp: load_inv_def start_last_def)
  next
    case (Cons e rest)
    with inv have l: "last stack = (start, True)" "start \<notin> set order"
      by (auto simp: load_inv_def start_last_def)
    from Cons have "last stack \<in> set stack" by simp
    with l have "start \<in> set (open_nodes stack)" by (force simp: open_nodes_def)
    with opn have "start \<noteq> node" by auto
    with l Cons show ?thesis by (simp add: start_last_def)
  qed
  moreover have "insert node visited \<inter> (in_stack - {node}) = {}"
    using inv by (auto simp: load_inv_def)
  moreover have "set (open_nodes stack) \<subseteq> in_stack - {node}" using opn by auto
  moreover have "deps_after g (rev (order @ [node]))" using deps ord by simp
  ultimately show ?thesis using ord nv opn cov by (simp add: load_inv_def)
qed

lemma load_inv_expand:
  assumes inv: "load_inv g start ((node, False) # stack) visited in_stack order"
    and nv: "node \<notin> visited" and ns: "node \<notin> in_stack"
  shows "load_inv g start
           (push_all ((node, True) # stack) (map (\<lambda>dep. (dep, False)) (dict_get g node [])))
           visited (insert node in_stack) order"
proof -
  let ?ds = "dict_get g node []"
  let ?new = "push_all ((node, True) # stack) (map (\<lambda>dep. (dep, False)) ?ds)"
  from inv have opn: "distinct (open_nodes stack)" "set (open_nodes stack) \<subseteq> in_stack"
    by (auto simp: load_inv_def open_nodes_def)
  from inv have cov: "deps_covered g (insert node visited) stack"
    by (simp add: load_inv_def)
  then have "deps_covered g (insert node (visited \<union> set ?ds)) stack"
    by (rule deps_covered_mono) auto
  then have "deps_covered g (visited \<union> set ?ds) ((node, True) # stack)" by simp
  then have c: "deps_covered g visited ?new"
    unfolding push_all_def by (rule deps_covered_push)
  have o: "open_nodes ?new = node # open_nodes stack" by (rule open_nodes_push)
  have "start_last start ?new order"
  proof (cases stack)
    case Nil
    with inv have "node = start" "order = []"
      by (auto simp: load_inv_def start_last_def)
    then show ?thesis using Nil by (simp add: start_last_def push_all_def)
  next
    case (Cons e rest)
    with inv have "last stack = (start, True)" "start \<notin> set order"
      by (auto simp: load_inv_def start_last_def)
    then show ?thesis using Cons by (simp add: start_last_def push_all_def)
  qed
  moreover have "visited \<inter> insert node in_stack = {}"
    using inv nv by (auto simp: load_inv_def)
  ultimately show ?thesis using inv opn ns c o by (auto simp: load_inv_def)
qed

lemma load_loop_post:
  "load_inv g start stack visited in_stack order \<Longrightarrow>
   load_loop g stack visited in_stack order = Some xs \<Longrightarrow> load_post g start xs"
proof (induction g stack visited in_stack order rule: load_loop.induct)
  case (1 graph visited in_stack order)
  then show ?case
    by (auto simp: load_inv_def start_last_def load_post_def hd_rev)
next
  case (2 graph node expanded stack visited in_stack order)
  note inv = "2.prems"(1) and res = "2.prems"(2)
  show ?case
  proof (cases "node \<in> in_stack \<and> \<not> expanded")
    case True
    with res show ?thesis by simp
  next
    case cyc: False
    show ?thesis
    proof (cases "node \<in> visited")
      case True
      have i: "load_inv graph start stack visited in_stack order"
        using inv True by (rule load_inv_skip)
      have r: "load_loop graph stack visited in_stack order = Some xs"
        using res cyc True by simp
      show ?thesis using cyc True i r by (rule "2.IH"(1))
    next
      case nv: False
      show ?thesis
      proof (cases expanded)
        case True
        have i: "load_inv graph start stack (insert node visited) (in_stack - {node})
                   (order @ [node])"
          using inv nv True load_inv_finish by simp
        have r: "load_loop graph stack (insert node visited) (in_stack - {node})
                   (order @ [node]) = Some xs"
          using res cyc nv True by simp
        show ?thesis using cyc nv True i r by (rule "2.IH"(2))
      next
        case False
        with cyc have ns: "node \<notin> in_stack" by simp
        have i: "load_inv graph start
           (push_all ((node, True) # stack) (map (\<lambda>dep. (dep, False)) (dict_get graph node [])))
           visited (insert node in_stack) order"
          using inv nv ns False load_inv_expand by simp
        have r: "load_loop graph
           (push_all ((node, True) # stack) (map (\<lambda>dep. (dep, False)) (dict_get graph node [])))
           visited (insert node in_stack) order = Some xs"
          using res cyc nv False by simp
        show ?thesis using cyc nv False i r by (rule "2.IH"(3))
      qed
    qed
  qed
qed

lemma load_inv_init: "load_inv g start [(start, False)] {} {} []"
  by (simp add: load_inv_def start_last_def open_nodes_def)

lemma compute_load_order_post:
  "compute_load_order g start = Some xs \<Longrightarrow> load_post g start xs"
  unfolding compute_load_order_def using load_inv_init by (rule load_loop_post)

lemma deps_after_member:
  "deps_after g xs \<Longrightarrow> n \<in> set xs \<Longrightarrow> set (dict_get g n []) \<subseteq> set xs"
  by (induction xs) auto

lemma deps_after_suffix: "deps_after g (ys @ zs) \<Longrightarrow> deps_after g zs"
  by (induction ys) auto

lemma deps_after_split:
  assumes "deps_after g (ys @ n # zs)"
  shows "set (dict_get g n []) \<subseteq> set zs"
proof -
  from assms have "deps_after g (n # zs)" by (rule deps_after_suffix)
  then show ?thesis by simp
qed

lemma deps_after_path:
  assumes d: "deps_after g xs" and p: "(n, m) \<in> (edges g)\<^sup>+" and n: "n \<in> set xs"
  shows "\<exists>ys zs. xs = ys @ n # zs \<and> m \<in> set zs"
  using p
proof (induction rule: trancl_induct)
  case (base m)
  from n obtain ys zs where xs: "xs = ys @ n # zs" by (auto dest: split_list)
  with d have "set (dict_get g n []) \<subseteq> set zs" by (auto dest: deps_after_split)
  with base have "m \<in> set zs" by (auto simp: edges_def)
  with xs show ?case by blast
next
  case (step m k)
  then obtain ys zs where xs: "xs = ys @ n # zs" and m: "m \<in> set zs" by blast
  from m obtain zs1 zs2 where zs: "zs = zs1 @ m # zs2" by (auto dest: split_list)
  with xs have "xs = (ys @ n # zs1) @ m # zs2" by simp
  with d have "set (dict_get g m []) \<subseteq> set zs2" by (metis deps_after_split)
  with step.hyps(2) have "k \<in> set zs2" by (auto simp: edges_def)
  with zs have "k \<in> set zs" by simp
  with xs show ?case by blast
qed

lemma deps_after_reach:
  assumes d: "deps_after g xs" and p: "(n, m) \<in> (edges g)\<^sup>*" and n: "n \<in> set xs"
  shows "m \<in> set xs"
  using p
proof (induction rule: rtrancl_induct)
  case base
  show ?case by (rule n)
next
  case (step m k)
  from d step.IH have "set (dict_get g m []) \<subseteq> set xs" by (rule deps_after_member)
  with step.hyps(2) show ?case by (auto simp: edges_def)
qed

lemma precedes_member: "precedes a b xs \<Longrightarrow> a \<in> set xs \<and> b \<in> set xs"
  by (induction xs) (auto split: if_splits)

lemma precedes_antisym: "distinct xs \<Longrightarrow> precedes a b xs \<Longrightarrow> \<not> precedes b a xs"
proof (induction xs)
  case Nil
  then show ?case by simp
next
  case (Cons x xs)
  show ?case
  proof (cases "x = a")
    case True
    with Cons.prems have b: "b \<in> set xs" and a: "a \<notin> set xs" by auto
    then have "a \<noteq> b" by auto
    moreover have "\<not> precedes b a xs" using a precedes_member [of b a xs] by auto
    ultimately show ?thesis using True by simp
  next
    case False
    with Cons.prems have p: "precedes a b xs" by simp
    then have "b \<in> set xs" using precedes_member [of a b xs] by auto
    with Cons.prems have "x \<noteq> b" by auto
    moreover from Cons.IH Cons.prems(1) p have "\<not> precedes b a xs" by simp
    ultimately show ?thesis by simp
  qed
qed

lemma deps_after_precedes:
  "deps_after g xs \<Longrightarrow> n \<in> set xs \<Longrightarrow> d \<in> set (dict_get g n []) \<Longrightarrow> precedes n d xs"
  by (induction xs) auto

lemma keys_dict_set: "fst ` set (dict_set d k v) = insert k (fst ` set d)"
  by (induction d k v rule: dict_set.induct) auto

lemma map_of_dict_set: "map_of (dict_set d k v) = (map_of d)(k \<mapsto> v)"
  by (induction d k v rule: dict_set.induct) auto

lemma dict_set_fresh: "k \<notin> fst ` set d \<Longrightarrow> dict_set d k v = d @ [(k, v)]"
  by (induction d k v rule: dict_set.induct) auto

lemma within_depth_Suc: "within_depth src s d \<subseteq> within_depth src s (Suc d)"
proof (induction d)
  case 0
  show ?case by simp
next
  case (Suc d)
  then have "\<Union> (set ` source_deps src ` within_depth src s d)
      \<subseteq> \<Union> (set ` source_deps src ` within_depth src s (Suc d))"
    by blast
  then show ?case by (simp add: subset_insertI2) 
qed

lemma within_depth_mono: "d \<le> d' \<Longrightarrow> within_depth src s d \<subseteq> within_depth src s d'"
  by (rule lift_Suc_mono_le [of "within_depth src s"]) (rule within_depth_Suc)

lemma within_depth_dep:
  "n \<in> within_depth src s d \<Longrightarrow> dep \<in> set (source_deps src n) \<Longrightarrow>
   dep \<in> within_depth src s (Suc d)"
  by auto

lemma get_deps_source:
  assumes "cache_ok src cache" and "get_deps src cache node = Inr (deps, cache')"
  shows "deps = source_deps src node \<and> cache_ok src cache'"
proof (cases src)
  case (TestSource full_graph)
  with assms show ?thesis by auto
next
  case (LiveSource packages_text)
  show ?thesis
  proof (cases "map_of cache node")
    case None
    with assms LiveSource show ?thesis
      by (auto simp: map_of_dict_set split: sum.splits if_splits)
  next
    case (Some d)
    with assms LiveSource show ?thesis by auto
  qed
qed

lemma cache_ok_empty: "cache_ok src []"
  by (cases src) simp_all

lemma build_inv_init: "build_inv src max_depth start_pkg (build_init start_pkg)"
  by (simp add: build_inv_def build_init_def in_stack_of_def graph_of_def visited_of_def
      reports_of_def cache_of_def stack_of_def cache_ok_empty)

lemma build_inv_step:
  assumes inv: "build_inv src max_depth start_pkg st"
    and ne: "stack_of st \<noteq> []"
    and step: "build_step src max_depth st = Inr st'"
  shows "build_inv src max_depth start_pkg st'"
proof -
  obtain stack0 visited in_stack result_graph cache reports
    where st: "st = (stack0, visited, in_stack, result_graph, cache, reports)"
    by (cases st)
  with ne obtain node depth stack where s0: "stack0 = (node, depth) # stack"
    by (cases stack0) (auto simp: stack_of_def)
  note sel = stack_of_def visited_of_def in_stack_of_def graph_of_def cache_of_def reports_of_def
  from inv have ins: "in_stack = {}" and keys: "fst ` set result_graph = visited"
    and rep: "reports = []" and c: "cache_ok src cache"
    and top: "1 \<le> depth" "node \<in> within_depth src start_pkg (nat depth)"
    and rest: "\<forall>(n, d) \<in> set stack. 1 \<le> d \<and> n \<in> within_depth src start_pkg (nat d)"
    and vis: "visited \<subseteq> within_depth src start_pkg (nat max_depth)"
    and ent: "\<forall>n \<in> visited. map_of result_graph n = Some (source_deps src n)"
    by (auto simp: build_inv_def st s0 sel)
  show ?thesis
  proof (cases "depth > max_depth \<or> node \<in> visited")
    case True
    with step have "st' = (stack, visited, in_stack, result_graph, cache, reports)"
      by (auto simp: st s0 split: if_splits)
    with ins keys rep c rest vis ent show ?thesis
      by (simp add: build_inv_def sel)
  next
    case False
    with step ins obtain deps cache' where
      g: "get_deps src cache node = Inr (deps, cache')" and
      st': "st' = (push_all stack (map (\<lambda>dep. (dep, depth + 1)) (rev deps)),
                  insert node visited, insert node in_stack - {node},
                  dict_set result_graph node deps, cache', reports)"
      by (auto simp: st s0 split: sum.splits)
    from c g have d: "deps = source_deps src node" and c': "cache_ok src cache'"
      using get_deps_source by blast+
    from False have "depth \<le> max_depth" by simp
    then have le: "nat depth \<le> nat max_depth" by (rule nat_mono)
    with top have nv: "node \<in> within_depth src start_pkg (nat max_depth)"
      using within_depth_mono by blast
    have suc: "nat (depth + 1) = Suc (nat depth)" using top by simp
    have new: "\<forall>(n, k) \<in> set (push_all stack (map (\<lambda>dep. (dep, depth + 1)) (rev deps))).
                 1 \<le> k \<and> n \<in> within_depth src start_pkg (nat k)"
      using rest top d within_depth_dep [OF top(2)]
      by (auto simp: push_all_def suc simp del: within_depth.simps)
    have ent': "\<forall>n \<in> insert node visited.
                 map_of (dict_set result_graph node deps) n = Some (source_deps src n)"
      using ent d by (simp add: map_of_dict_set)
    show ?thesis
      using ins keys rep c' new vis nv ent'
      by (simp add: build_inv_def st' sel keys_dict_set)
  qed
qed

lemma build_reach_inv:
  "build_reach src max_depth start_pkg st \<Longrightarrow> build_inv src max_depth start_pkg st"
  by (induction rule: build_reach.induct) (auto intro: build_inv_init build_inv_step)

lemma build_loop_reach:
  "build_reach src max_depth start_pkg st \<Longrightarrow> build_loop src max_depth st = Inr st' \<Longrightarrow>
   build_reach src max_depth start_pkg st' \<and> stack_of st' = []"
proof (induction src max_depth st rule: build_loop.induct)
  case (1 src max_depth st)
  show ?case
  proof (cases "stack_of st = []")
    case True
    then have "build_loop src max_depth st = Inr st"
      by (subst build_loop.simps) simp
    with "1.prems" True show ?thesis by simp
  next
    case False
    then have unfold: "build_loop src max_depth st =
        (case build_step src max_depth st of Inl e \<Rightarrow> Inl e
         | Inr st1 \<Rightarrow> build_loop src max_depth st1)"
      by (subst build_loop.simps) simp
    show ?thesis
    proof (cases "build_step src max_depth st")
      case (Inl e)
      with unfold "1.prems"(2) show ?thesis by simp
    next
      case (Inr st1)
      with unfold "1.prems"(2) have l: "build_loop src max_depth st1 = Inr st'" by simp
      from "1.prems"(1) False Inr have "build_reach src max_depth start_pkg st1"
        by (rule reach_step)
      then show ?thesis using l by (rule "1.IH" [OF False Inr])
    qed
  qed
qed

lemma build_graph_reach:
  assumes "open_source repo test_mode = Inr src"
    and "build_graph start_pkg repo test_mode max_depth = Inr (g, reports)"
  shows "\<exists>st. build_reach src max_depth start_pkg st \<and> stack_of st = [] \<and>
              graph_of st = g \<and> reports_of st = reports"
proof -
  from assms obtain st where l: "build_loop src max_depth (build_init start_pkg) = Inr st"
    and r: "graph_of st = g" "reports_of st = reports"
    by (auto simp: build_graph_def graph_of_def reports_of_def split: sum.splits prod.splits)
  have "build_reach src max_depth start_pkg (build_init start_pkg)" by (rule reach_init)
  then have "build_reach src max_depth start_pkg st \<and> stack_of st = []"
    using l by (rule build_loop_reach)
  with r show ?thesis by blast
qed

lemma build_graph_source:
  "build_graph start_pkg repo test_mode max_depth = Inr r \<Longrightarrow>
   \<exists>src. open_source repo test_mode = Inr src"
  by (cases "open_source repo test_mode") (auto simp: build_graph_def)

lemma build_step_test_mode: "\<exists>st'. build_step (TestSource full_graph) max_depth st = Inr st'"
proof -
  obtain stack0 visited in_stack result_graph cache reports
    where st: "st = (stack0, visited, in_stack, result_graph, cache, reports)"
    by (cases st)
  show ?thesis
  proof (cases stack0)
    case Nil
    with st show ?thesis by simp
  next
    case (Cons e stack)
    obtain node depth where "e = (node, depth)" by (cases e)
    with st Cons show ?thesis by simp
  qed
qed

lemma build_loop_test_mode: "\<exists>st'. build_loop (TestSource full_graph) max_depth st = Inr st'"
proof (induction "TestSource full_graph" max_depth st rule: build_loop.induct)
  case (1 max_depth st)
  show ?case
  proof (cases "stack_of st = []")
    case True
    then have "build_loop (TestSource full_graph) max_depth st = Inr st"
      by (subst build_loop.simps) simp
    then show ?thesis by blast
  next
    case False
    obtain st1 where s: "build_step (TestSource full_graph) max_depth st = Inr st1"
      using build_step_test_mode by blast
    from False s have "\<exists>st'. build_loop (TestSource full_graph) max_depth st1 = Inr st'"
      by (rule "1.hyps")
    moreover from False s have "build_loop (TestSource full_graph) max_depth st =
        build_loop (TestSource full_graph) max_depth st1"
      by (subst build_loop.simps) simp
    ultimately show ?thesis by simp
  qed
qed

lemma build_graph_test_mode:
  assumes "read_lines repo = Some file_lines"
  shows "\<exists>g reports. build_graph start_pkg repo True max_depth = Inr (g, reports)"
proof -
  from assms have o: "open_source repo True = Inr (TestSource (load_test_graph file_lines))"
    by (simp add: open_source_def)
  obtain st where "build_loop (TestSource (load_test_graph file_lines)) max_depth
                     (build_init start_pkg) = Inr st"
    using build_loop_test_mode by blast
  with o show ?thesis
    by (cases st) (simp add: build_graph_def)
qed

lemma dict_get_absent: "k \<notin> fst ` set d \<Longrightarrow> dict_get d k dflt = dflt"
  by (simp add: dict_get_def map_of_eq_None_iff [THEN iffD2])

section \<open>Lemmas about the index lookup\<close>

lemma startswith_iff: "startswith s p \<longleftrightarrow> (\<exists>r. s = p @ r)"
  by (induction s p rule: startswith.induct) auto

lemma first_line_startswith: "first_line block = p \<Longrightarrow> startswith block p"
proof -
  assume "first_line block = p"
  then have "takeWhile (\<lambda>c. c \<noteq> CHR ''\<newline>'') block = p"
    by (simp only: first_line_def)
  then have "p @ dropWhile (\<lambda>c. c \<noteq> CHR ''\<newline>'') block = block"
    using takeWhile_dropWhile_id [of "\<lambda>c. c \<noteq> CHR ''\<newline>''" block] by simp
  then have "\<exists>r. block = p @ r" by metis
  then show ?thesis by (simp only: startswith_iff)
qed

lemma extract_from_blocks_none:
  "list_all (\<lambda>block. \<not> startswith block (''Package: '' @ package)) blocks \<Longrightarrow>
   extract_from_blocks package blocks = Inl (PackageNotFound package)"
  by (induction blocks) auto

lemma extract_from_blocks_some:
  "list_ex (\<lambda>block. startswith block (''Package: '' @ package)) blocks \<Longrightarrow>
   \<exists>deps. extract_from_blocks package blocks = Inr deps"
  by (induction blocks) auto

section \<open>The claims about the sequencer\<close>

text \<open>
  Claim C1. The claim: whenever \<open>compute_load_order\<close> returns a sequence, every dependency
  that is a graph key appears strictly before the node that lists it, and each name
  appears at most once. On the graph \<open>{A: [B, C], B: [C], C: []}\<close> with start \<open>A\<close> the
  function returns \<open>[A, B, C]\<close>: \<open>B\<close> is a key listed in \<open>graph[A]\<close>, and \<open>A\<close> precedes
  \<open>B\<close>. The post-order \<open>[C, B, A]\<close> that the loop accumulates has the dependencies
  first; the final \<open>reversed\<close> turns it round.
\<close>

theorem scenario_abc_dependents_first:
  "compute_load_order graph_abc ''A'' = Some [''A'', ''B'', ''C''] \<and>
   ''A'' \<in> fst ` set graph_abc \<and> ''B'' \<in> fst ` set graph_abc \<and>
   ''B'' \<in> set (dict_get graph_abc ''A'' []) \<and>
   \<not> precedes ''B'' ''A'' [''A'', ''B'', ''C''] \<and> precedes ''A'' ''B'' [''A'', ''B'', ''C'']"
  by (simp add: compute_load_order_def graph_abc_def push_all_def dict_get_def)

text \<open>
  Claim C6. If a cycle of the graph is reachable from the start package, then
  \<open>compute_load_order\<close> returns \<open>None\<close>. The loop always terminates, so the function does
  return; a returned sequence would list every reachable node before its dependencies,
  each once, which a cycle makes impossible.
\<close>

theorem load_order_cycle_none:
  assumes reach: "(start, v) \<in> (edges graph)\<^sup>*" and cyc: "(v, v) \<in> (edges graph)\<^sup>+"
  shows "compute_load_order graph start = None"
proof (cases "compute_load_order graph start")
  case None
  then show ?thesis .
next
  case (Some xs)
  then have post: "load_post graph start xs" by (rule compute_load_order_post)
  then have d: "deps_after graph xs" and dist: "distinct xs" and "start \<in> set xs"
    by (auto simp: load_post_def)
  with reach have "v \<in> set xs" by (auto intro: deps_after_reach)
  with d cyc obtain ys zs where "xs = ys @ v # zs" "v \<in> set zs"
    by (blast dest: deps_after_path)
  with dist have False by simp
  then show ?thesis ..
qed

text \<open>The graph \<open>{A: [B], B: [A]}\<close> with start \<open>A\<close>.\<close>

theorem load_order_cycle_none_witness:
  "(''A'', ''A'') \<in> (edges graph_ab_cycle)\<^sup>* \<and> (''A'', ''A'') \<in> (edges graph_ab_cycle)\<^sup>+ \<and>
   compute_load_order graph_ab_cycle ''A'' = None"
proof -
  have ab: "(''A'', ''B'') \<in> edges graph_ab_cycle"
    by (simp add: edges_def graph_ab_cycle_def dict_get_def)
  have ba: "(''B'', ''A'') \<in> edges graph_ab_cycle"
    by (simp add: edges_def graph_ab_cycle_def dict_get_def)
  have r: "(''A'', ''A'') \<in> (edges graph_ab_cycle)\<^sup>*" by simp
  have c: "(''A'', ''A'') \<in> (edges graph_ab_cycle)\<^sup>+"
    using ab ba by (rule trancl_into_trancl2 [OF _ r_into_trancl])
  from r c load_order_cycle_none [OF r c] show ?thesis by simp
qed

text \<open>
  Claim C10. Whenever \<open>compute_load_order\<close> returns a sequence, the start package is its
  first element and occurs in it exactly once, for every graph and every start, a start
  that is not a graph key included.
\<close>

theorem load_order_start_first:
  assumes "compute_load_order graph start = Some xs"
  shows "xs \<noteq> [] \<and> hd xs = start \<and> count_list xs start = 1"
proof -
  from assms have post: "load_post graph start xs" by (rule compute_load_order_post)
  then obtain ys where xs: "xs = start # ys" and "distinct xs"
    by (cases xs) (auto simp: load_post_def)
  then have "start \<notin> set ys" by simp
  with xs show ?thesis by simp
qed

text \<open>
  The graph \<open>{A: [B, C], B: [C], C: []}\<close> with start \<open>A\<close>, and with the start \<open>Z\<close>, which
  is not a key.
\<close>

theorem load_order_start_first_witness:
  "compute_load_order graph_abc ''A'' = Some [''A'', ''B'', ''C''] \<and>
   hd [''A'', ''B'', ''C''] = ''A'' \<and> count_list [''A'', ''B'', ''C''] ''A'' = 1 \<and>
   compute_load_order graph_abc ''Z'' = Some [''Z'']"
proof -
  have r: "compute_load_order graph_abc ''A'' = Some [''A'', ''B'', ''C'']"
    by (simp add: compute_load_order_def graph_abc_def push_all_def dict_get_def)
  have z: "compute_load_order graph_abc ''Z'' = Some [''Z'']"
    by (simp add: compute_load_order_def graph_abc_def push_all_def dict_get_def)
  from r z load_order_start_first [OF r] show ?thesis by simp
qed

section \<open>The claims about the builder\<close>

text \<open>
  Claim C2. The claim: for the fixture \<open>A: B C\<close>, \<open>B: C\<close>, \<open>C:\<close>, \<open>D:\<close> with start \<open>A\<close> and
  depth 5 the builder returns the graph \<open>{A: [B, C], B: [C], C: []}\<close>, without the key
  \<open>D\<close>, and the sequencer returns \<open>[C, B, A]\<close> on it. The builder does return that graph,
  and prints no cycle report. The sequencer returns \<open>[A, B, C]\<close>, the reverse of the
  claimed order: it reverses the dependencies-first order it has accumulated.
\<close>

theorem scenario_abcd_order:
  "build_graph ''A'' fixture_abcd True 5 = Inr (graph_abc, []) \<and>
   ''D'' \<notin> fst ` set graph_abc \<and>
   compute_load_order graph_abc ''A'' = Some [''A'', ''B'', ''C''] \<and>
   compute_load_order graph_abc ''A'' \<noteq> Some [''C'', ''B'', ''A'']"
  by code_simp

text \<open>
  Claim C4. The claim: a popped node that is in \<open>in_stack\<close> is reported as a cycle and
  skipped, and for the fixture \<open>A: B\<close>, \<open>B: A\<close> with start \<open>A\<close> and depth 5 the builder
  returns \<open>{A: [B], B: [A]}\<close> and reports a cycle when it meets \<open>A\<close> again. The builder
  returns that graph, and the list of its cycle reports is empty: each iteration removes
  from \<open>in_stack\<close> the node it has just added, so the set is empty whenever a node is
  popped, and the second \<open>A\<close> is skipped as visited.
\<close>

theorem scenario_cycle_no_report:
  "build_graph ''A'' fixture_cycle True 5 = Inr (graph_ab_cycle, []) \<and>
   build_graph ''A'' fixture_cycle True 5 \<noteq> Inr (graph_ab_cycle, [CycleReport ''A''])"
  by code_simp

text \<open>
  Claim C5. A package that no path of at most \<open>max_depth\<close> names reaches from the start
  package (the start counting as depth 1) is not a key of the graph that the builder
  returns, for every source, start package and \<open>max_depth\<close>; and for the fixture
  \<open>A: B\<close>, \<open>B: C\<close>, \<open>C: D\<close> with start \<open>A\<close> and depth 2 the graph is exactly
  \<open>{A: [B], B: [C]}\<close>, where \<open>C\<close> is listed by \<open>B\<close> and is not a key.
\<close>

theorem build_graph_depth_bound:
  "(open_source repo test_mode = Inr src \<and>
    build_graph start_pkg repo test_mode max_depth = Inr (g, reports) \<and>
    p \<notin> within_depth src start_pkg (nat max_depth) \<longrightarrow> p \<notin> fst ` set g) \<and>
   build_graph ''A'' fixture_chain True 2 = Inr ([(''A'', [''B'']), (''B'', [''C''])], [])"
proof (intro conjI impI)
  assume a: "open_source repo test_mode = Inr src \<and>
    build_graph start_pkg repo test_mode max_depth = Inr (g, reports) \<and>
    p \<notin> within_depth src start_pkg (nat max_depth)"
  then obtain st where r: "build_reach src max_depth start_pkg st" and g: "graph_of st = g"
    using build_graph_reach by blast
  from r have "build_inv src max_depth start_pkg st" by (rule build_reach_inv)
  then have "fst ` set g \<subseteq> within_depth src start_pkg (nat max_depth)"
    by (simp add: build_inv_def g)
  with a show "p \<notin> fst ` set g" by blast
next
  show "build_graph ''A'' fixture_chain True 2 = Inr ([(''A'', [''B'']), (''B'', [''C''])], [])"
    by code_simp
qed

text \<open>
  The fixture of the claim: \<open>C\<close> is not within depth 2 of \<open>A\<close>, and is not a key.
\<close>

theorem build_graph_depth_bound_witness:
  "open_source fixture_chain True =
     Inr (TestSource [(''A'', [''B'']), (''B'', [''C'']), (''C'', [''D''])]) \<and>
   build_graph ''A'' fixture_chain True 2 = Inr ([(''A'', [''B'']), (''B'', [''C''])], []) \<and>
   ''C'' \<notin> within_depth (TestSource [(''A'', [''B'']), (''B'', [''C'']), (''C'', [''D''])]) ''A'' (nat 2) \<and>
   ''C'' \<notin> fst ` set [(''A'', [''B'']), (''B'', [''C''])]"
proof -
  have o: "open_source fixture_chain True =
     Inr (TestSource [(''A'', [''B'']), (''B'', [''C'']), (''C'', [''D''])])"
    by code_simp
  have b: "build_graph ''A'' fixture_chain True 2 = Inr ([(''A'', [''B'']), (''B'', [''C''])], [])"
    by code_simp
  have w: "''C'' \<notin> within_depth (TestSource [(''A'', [''B'']), (''B'', [''C'']), (''C'', [''D''])]) ''A'' (nat 2)"
    by code_simp
  from o b w build_graph_depth_bound [of fixture_chain True
      "TestSource [(''A'', [''B'']), (''B'', [''C'']), (''C'', [''D''])]" "''A''" 2
      "[(''A'', [''B'']), (''B'', [''C''])]" "[]" "''C''"]
  show ?thesis by blast
qed

text \<open>
  Claim C7. In every state of the builder at an iteration boundary of its loop, no name
  is both in \<open>visited\<close> and in \<open>in_stack\<close>, and every key of the graph is in \<open>visited\<close>.
  An iteration from such a state leaves every existing entry of the graph as it is: the
  graph is either unchanged or extended by one entry whose key was not a key before, so
  each key is assigned once.
\<close>

theorem builder_invariants:
  assumes "build_reach src max_depth start_pkg st"
  shows "visited_of st \<inter> in_stack_of st = {} \<and>
         fst ` set (graph_of st) \<subseteq> visited_of st \<and>
         (\<forall>st'. stack_of st \<noteq> [] \<and> build_step src max_depth st = Inr st' \<longrightarrow>
            (\<forall>k \<in> fst ` set (graph_of st). map_of (graph_of st') k = map_of (graph_of st) k) \<and>
            (graph_of st' = graph_of st \<or>
             (\<exists>node deps. node \<notin> fst ` set (graph_of st) \<and>
                           graph_of st' = graph_of st @ [(node, deps)])))"
proof -
  from assms have inv: "build_inv src max_depth start_pkg st" by (rule build_reach_inv)
  obtain stack0 visited in_stack result_graph cache reports
    where st: "st = (stack0, visited, in_stack, result_graph, cache, reports)"
    by (cases st)
  note sel = stack_of_def visited_of_def in_stack_of_def graph_of_def
  from inv have ins: "in_stack = {}" and keys: "fst ` set result_graph = visited"
    by (simp_all add: build_inv_def st in_stack_of_def graph_of_def visited_of_def)
  have step: "(\<forall>k \<in> fst ` set result_graph. map_of (graph_of st') k = map_of result_graph k) \<and>
              (graph_of st' = result_graph \<or>
               (\<exists>node deps. node \<notin> fst ` set result_graph \<and>
                             graph_of st' = result_graph @ [(node, deps)]))"
    if ne: "stack0 \<noteq> []" and s: "build_step src max_depth st = Inr st'" for st'
  proof -
    from ne obtain node depth stack where s0: "stack0 = (node, depth) # stack"
      by (cases stack0) auto
    show ?thesis
    proof (cases "depth > max_depth \<or> node \<in> visited")
      case True
      with s have "graph_of st' = result_graph"
        by (auto simp: st s0 graph_of_def split: if_splits)
      then show ?thesis by simp
    next
      case False
      with s ins obtain deps where g': "graph_of st' = dict_set result_graph node deps"
        by (auto simp: st s0 graph_of_def split: sum.splits)
      from False keys have fresh: "node \<notin> fst ` set result_graph" by simp
      then have app: "graph_of st' = result_graph @ [(node, deps)]"
        by (simp add: g' dict_set_fresh)
      have "\<forall>k \<in> fst ` set result_graph. map_of (graph_of st') k = map_of result_graph k"
        using fresh by (auto simp: g' map_of_dict_set)
      with fresh app show ?thesis by blast
    qed
  qed
  from ins keys step show ?thesis by (simp add: st sel)
qed

text \<open>
  The state after the first iteration on the fixture \<open>A: B\<close>, \<open>B: A\<close>, and the iteration
  that follows it.
\<close>

theorem builder_invariants_witness:
  "build_reach (TestSource graph_ab_cycle) 5 ''A'' ([(''B'', 2)], {''A''}, {}, [(''A'', [''B''])], [], []) \<and>
   visited_of ([(''B'', 2)], {''A''}, {}, [(''A'', [''B''])], [], []) \<inter>
     in_stack_of ([(''B'', 2)], {''A''}, {}, [(''A'', [''B''])], [], []) = {} \<and>
   fst ` set (graph_of ([(''B'', 2)], {''A''}, {}, [(''A'', [''B''])], [], []))
     \<subseteq> visited_of ([(''B'', 2)], {''A''}, {}, [(''A'', [''B''])], [], []) \<and>
   build_step (TestSource graph_ab_cycle) 5 ([(''B'', 2)], {''A''}, {}, [(''A'', [''B''])], [], []) =
     Inr ([(''A'', 3)], {''B'', ''A''}, {}, [(''A'', [''B'']), (''B'', [''A''])], [], []) \<and>
   graph_of ([(''A'', 3)], {''B'', ''A''}, {}, [(''A'', [''B'']), (''B'', [''A''])], [], []) =
     graph_of ([(''B'', 2)], {''A''}, {}, [(''A'', [''B''])], [], []) @ [(''B'', [''A''])]"
proof -
  let ?src = "TestSource graph_ab_cycle"
  let ?st1 = "([(''B'', 2)], {''A''}, {}, [(''A'', [''B''])], [], []) :: builder"
  let ?st2 = "([(''A'', 3)], {''B'', ''A''}, {}, [(''A'', [''B'']), (''B'', [''A''])], [], []) :: builder"
  have r0: "build_reach ?src 5 ''A'' (build_init ''A'')" by (rule reach_init)
  have s0: "build_step ?src 5 (build_init ''A'') = Inr ?st1"
    by (simp add: build_init_def graph_ab_cycle_def dict_get_def push_all_def)
  have n0: "stack_of (build_init ''A'') \<noteq> []" by (simp add: build_init_def stack_of_def)
  from r0 n0 s0 have r1: "build_reach ?src 5 ''A'' ?st1" by (rule reach_step)
  have s1: "build_step ?src 5 ?st1 = Inr ?st2"
    by (simp add: graph_ab_cycle_def dict_get_def push_all_def)
  have g: "graph_of ?st2 = graph_of ?st1 @ [(''B'', [''A''])]" by (simp add: graph_of_def)
  from builder_invariants [OF r1]
  have i: "visited_of ?st1 \<inter> in_stack_of ?st1 = {}"
    "fst ` set (graph_of ?st1) \<subseteq> visited_of ?st1"
    by blast+
  from r1 i s1 g show ?thesis by (intro conjI)
qed

section \<open>The claims about the index lookup and the renderer\<close>

text \<open>
  Claim C3, as stated: \<open>get_deps\<close> fails with \<open>PackageNotFound\<close> exactly when the queried
  name is absent from the backing index, in test mode and in live mode, and never
  defaults to an empty list. In test mode it does default: \<open>Z\<close> is not in the fixture
  \<open>A: B\<close>, \<open>B: C\<close>, \<open>C: D\<close>, the query for \<open>Z\<close> answers \<open>[]\<close>, and a run that starts at
  \<open>Z\<close> returns the graph \<open>{Z: []}\<close>.
\<close>

theorem test_mode_defaults_to_empty:
  "''Z'' \<notin> fst ` set (load_test_graph chain_lines) \<and>
   get_deps (TestSource (load_test_graph chain_lines)) [] ''Z'' = Inr ([], []) \<and>
   build_graph ''Z'' fixture_chain True 5 = Inr ([(''Z'', [])], [])"
  by code_simp

text \<open>
  Claim C3, amended. In test mode \<open>get_deps\<close> never fails: for a name that is not a key of
  the fixture it answers the empty list, the default of \<open>full_graph.get(name, [])\<close>, and a
  run on a readable fixture file returns a graph whatever its start package is. In live
  mode the lookup fails with \<open>PackageNotFound\<close> when no stanza of the index text starts
  with \<open>"Package: " + name\<close>, and it succeeds when the first line of some stanza is
  \<open>"Package: " + name\<close>.
\<close>

theorem package_not_found_cases:
  "(name \<notin> fst ` set full_graph \<longrightarrow>
      get_deps (TestSource full_graph) cache name = Inr ([], cache)) \<and>
   (read_lines repo = Some file_lines \<longrightarrow>
      (\<exists>g reports. build_graph name repo True max_depth = Inr (g, reports))) \<and>
   (list_all (\<lambda>block. \<not> startswith block (''Package: '' @ name))
        (split_sep packages_text ''\<newline>\<newline>'') \<longrightarrow>
      extract_dependencies name packages_text = Inl (PackageNotFound name) \<and>
      get_deps (LiveSource packages_text) [] name = Inl (PackageNotFound name)) \<and>
   (list_ex (\<lambda>block. first_line block = ''Package: '' @ name)
        (split_sep packages_text ''\<newline>\<newline>'') \<longrightarrow>
      (\<exists>deps. extract_dependencies name packages_text = Inr deps \<and>
              get_deps (LiveSource packages_text) [] name = Inr (deps, [(name, deps)])))"
proof (intro conjI impI)
  assume "name \<notin> fst ` set full_graph"
  then show "get_deps (TestSource full_graph) cache name = Inr ([], cache)"
    by (simp add: dict_get_absent)
next
  assume "read_lines repo = Some file_lines"
  then show "\<exists>g reports. build_graph name repo True max_depth = Inr (g, reports)"
    by (rule build_graph_test_mode)
next
  assume "list_all (\<lambda>block. \<not> startswith block (''Package: '' @ name))
            (split_sep packages_text ''\<newline>\<newline>'')"
  then have e: "extract_dependencies name packages_text = Inl (PackageNotFound name)"
    unfolding extract_dependencies_def by (rule extract_from_blocks_none)
  then show "extract_dependencies name packages_text = Inl (PackageNotFound name)" .
  from e show "get_deps (LiveSource packages_text) [] name = Inl (PackageNotFound name)"
    by simp
next
  assume "list_ex (\<lambda>block. first_line block = ''Package: '' @ name)
            (split_sep packages_text ''\<newline>\<newline>'')"
  then have "list_ex (\<lambda>block. startswith block (''Package: '' @ name))
            (split_sep packages_text ''\<newline>\<newline>'')"
    by (auto simp: list_ex_iff dest: first_line_startswith)
  then obtain deps where e: "extract_dependencies name packages_text = Inr deps"
    unfolding extract_dependencies_def using extract_from_blocks_some by blast
  then have "get_deps (LiveSource packages_text) [] name = Inr (deps, [(name, deps)])"
    by simp
  with e show "\<exists>deps. extract_dependencies name packages_text = Inr deps \<and>
              get_deps (LiveSource packages_text) [] name = Inr (deps, [(name, deps)])"
    by blast
qed

text \<open>
  The name \<open>bar\<close>, which neither the fixtures nor the index text with the stanzas of
  \<open>foobar\<close> and \<open>foo\<close> have, and the name \<open>foo\<close>, the first line of the second stanza.
\<close>

theorem package_not_found_cases_witness:
  "''bar'' \<notin> fst ` set graph_abc \<and>
   get_deps (TestSource graph_abc) [] ''bar'' = Inr ([], []) \<and>
   read_lines fixture_chain = Some chain_lines \<and>
   (\<exists>g reports. build_graph ''bar'' fixture_chain True 5 = Inr (g, reports)) \<and>
   split_sep index_foobar_foo ''\<newline>\<newline>'' =
     [''Package: foobar\<newline>Version: 1.0\<newline>Depends: libx'',
      ''Package: foo\<newline>Depends: liby\<newline>''] \<and>
   extract_dependencies ''bar'' index_foobar_foo = Inl (PackageNotFound ''bar'') \<and>
   first_line ''Package: foo\<newline>Depends: liby\<newline>'' = ''Package: foo'' \<and>
   (\<exists>deps. extract_dependencies ''foo'' index_foobar_foo = Inr deps)"
proof -
  have k: "''bar'' \<notin> fst ` set graph_abc" by (simp add: graph_abc_def)
  have l: "read_lines fixture_chain = Some chain_lines" by (simp add: fixture_chain_def)
  have s: "split_sep index_foobar_foo ''\<newline>\<newline>'' =
     [''Package: foobar\<newline>Version: 1.0\<newline>Depends: libx'',
      ''Package: foo\<newline>Depends: liby\<newline>'']"
    by code_simp
  have a: "list_all (\<lambda>block. \<not> startswith block (''Package: '' @ ''bar''))
             (split_sep index_foobar_foo ''\<newline>\<newline>'')"
    unfolding s by simp
  have f: "first_line ''Package: foo\<newline>Depends: liby\<newline>'' = ''Package: foo''"
    by (simp add: first_line_def)
  have b: "list_ex (\<lambda>block. first_line block = ''Package: '' @ ''foo'')
             (split_sep index_foobar_foo ''\<newline>\<newline>'')"
    unfolding s using f by simp
  from package_not_found_cases [of "''bar''" graph_abc "[]" fixture_chain chain_lines 5
      index_foobar_foo] k l a
  have 1: "get_deps (TestSource graph_abc) [] ''bar'' = Inr ([], [])"
    and 2: "\<exists>g reports. build_graph ''bar'' fixture_chain True 5 = Inr (g, reports)"
    and 3: "extract_dependencies ''bar'' index_foobar_foo = Inl (PackageNotFound ''bar'')"
    by blast+
  from package_not_found_cases [of "''foo''" graph_abc "[]" fixture_chain chain_lines 5
      index_foobar_foo] b
  have 4: "\<exists>deps. extract_dependencies ''foo'' index_foobar_foo = Inr deps" by blast
  from k l s f 1 2 3 4 show ?thesis by (intro conjI)
qed

text \<open>
  Claim C9. The live lookup matches a stanza by the prefix \<open>"Package: " + name\<close> of its
  text: in an index where the stanza of \<open>foobar\<close> comes before the stanza of \<open>foo\<close>, the
  query for \<open>foo\<close> returns the dependency list of \<open>foobar\<close>, not the list \<open>[liby]\<close> of
  its own stanza.
\<close>

theorem prefix_match_returns_other_package:
  "startswith ''foobar'' ''foo'' \<and> ''foobar'' \<noteq> ''foo'' \<and>
   extract_dependencies ''foobar'' index_foobar_foo = Inr [''libx''] \<and>
   extract_dependencies ''foo'' index_foobar_foo = Inr [''libx''] \<and>
   extract_dependencies ''foo'' ''Package: foo\<newline>Depends: liby\<newline>'' = Inr [''liby'']"
  by code_simp

text \<open>
  Claim C8. \<open>_make_mermaid_id\<close> is not injective: the distinct names \<open>a.b\<close> and \<open>a_b\<close> get
  the identifier \<open>a_b\<close>. For the graph \<open>{a.b: [x], a_b: [x, y]}\<close> with root \<open>a.b\<close>, the text
  that \<open>graph_to_mermaid\<close> returns declares one node \<open>a_b\<close>, labelled \<open>a.b\<close>, and no node
  for the name \<open>a_b\<close>; the edges of both names leave that node, the edge to their common
  dependency \<open>x\<close> once.
\<close>

theorem mermaid_id_collision:
  \<open>''a.b'' \<noteq> ''a_b'' \<and> make_mermaid_id ''a.b'' = ''a_b'' \<and> make_mermaid_id ''a_b'' = ''a_b'' \<and>
   graph_to_mermaid [(''a.b'', [''x'']), (''a_b'', [''x'', ''y''])] ''a.b'' =
     Some (''graph TD\<newline>'' @
           ''    a_b["a.b"]\<newline>'' @
           ''    x["x"]\<newline>'' @
           ''    a_b --> x\<newline>'' @
           ''    y["y"]\<newline>'' @
           ''    a_b --> y\<newline>'' @
           ''class a_b root;\<newline>'' @
           ''classDef root fill:#f9f,stroke:#333,stroke-width:2px;'')\<close>
  by code_simp

section \<open>Further properties of the sequencer and the builder\<close>

text \<open>
  Property X1. What \<open>compute_load_order\<close> returns, for every graph and start: in a returned sequence
  every node stands strictly before each name that \<open>graph.get(node, [])\<close> lists, never
  after it, and no name occurs twice. The order is dependents-first.
\<close>

theorem load_order_dependents_first:
  assumes "compute_load_order graph start = Some xs"
    and "node \<in> set xs" and "dep \<in> set (dict_get graph node [])"
  shows "precedes node dep xs \<and> \<not> precedes dep node xs \<and> distinct xs"
proof -
  from assms(1) have "load_post graph start xs" by (rule compute_load_order_post)
  then have d: "deps_after graph xs" and dist: "distinct xs" by (simp_all add: load_post_def)
  from d assms(2,3) have p: "precedes node dep xs" by (rule deps_after_precedes)
  with dist have "\<not> precedes dep node xs" by (rule precedes_antisym)
  with p dist show ?thesis by simp
qed

text \<open>
  The graph \<open>{A: [B, C], B: [C], C: []}\<close>: \<open>B\<close> stands before its dependency \<open>C\<close>.
\<close>

theorem load_order_dependents_first_witness:
  "compute_load_order graph_abc ''A'' = Some [''A'', ''B'', ''C''] \<and>
   ''B'' \<in> set [''A'', ''B'', ''C''] \<and> ''C'' \<in> set (dict_get graph_abc ''B'' []) \<and>
   precedes ''B'' ''C'' [''A'', ''B'', ''C''] \<and> \<not> precedes ''C'' ''B'' [''A'', ''B'', ''C'']"
proof -
  have r: "compute_load_order graph_abc ''A'' = Some [''A'', ''B'', ''C'']" by code_simp
  have m: "''B'' \<in> set [''A'', ''B'', ''C'']" by simp
  have e: "''C'' \<in> set (dict_get graph_abc ''B'' [])" by (simp add: dict_get_def graph_abc_def)
  from load_order_dependents_first [OF r m e] r m e show ?thesis by blast
qed

text \<open>
  Property X2. The builder never prints a cycle report, whatever the source, the start package and
  the depth: \<open>in_stack\<close> is empty whenever a node is popped.
\<close>

theorem build_graph_never_reports:
  assumes "build_graph start_pkg repo test_mode max_depth = Inr (g, reports)"
  shows "reports = []"
proof -
  from assms obtain src where "open_source repo test_mode = Inr src"
    using build_graph_source by blast
  with assms obtain st where r: "build_reach src max_depth start_pkg st"
    and "reports_of st = reports"
    using build_graph_reach by blast
  moreover from r have "build_inv src max_depth start_pkg st" by (rule build_reach_inv)
  ultimately show ?thesis by (simp add: build_inv_def)
qed

text \<open>
  A fixture with the single line \<open>A: A\<close>, a package that depends on itself.
\<close>

theorem build_graph_never_reports_witness:
  "build_graph ''A'' \<lparr>read_lines = Some [''A: A\<newline>''], packages_gz = None\<rparr> True 3 =
     Inr ([(''A'', [''A''])], [])"
proof -
  have b: "build_graph ''A'' \<lparr>read_lines = Some [''A: A\<newline>''], packages_gz = None\<rparr> True 3 =
     Inr ([(''A'', [''A''])], [])"
    by code_simp
  from build_graph_never_reports [OF b] b show ?thesis by simp
qed

text \<open>
  Property X3. Every entry of the graph that the builder returns is the dependency list that the
  source holds for its key.
\<close>

theorem build_graph_entries:
  assumes "open_source repo test_mode = Inr src"
    and "build_graph start_pkg repo test_mode max_depth = Inr (g, reports)"
    and "map_of g node = Some deps"
  shows "deps = source_deps src node"
proof -
  from assms(1,2) obtain st where r: "build_reach src max_depth start_pkg st"
    and g: "graph_of st = g"
    using build_graph_reach by blast
  from r have inv: "build_inv src max_depth start_pkg st" by (rule build_reach_inv)
  from assms(3) have "(node, deps) \<in> set g" by (rule map_of_SomeD)
  then have "node \<in> fst ` set g" by force
  with inv g have "map_of g node = Some (source_deps src node)"
    by (simp add: build_inv_def)
  with assms(3) show ?thesis by simp
qed

text \<open>
  The fixture \<open>A: B\<close>, \<open>B: C\<close>, \<open>C: D\<close> with depth 2 and the entry of \<open>B\<close>.
\<close>

theorem build_graph_entries_witness:
  "open_source fixture_chain True =
     Inr (TestSource [(''A'', [''B'']), (''B'', [''C'']), (''C'', [''D''])]) \<and>
   build_graph ''A'' fixture_chain True 2 = Inr ([(''A'', [''B'']), (''B'', [''C''])], []) \<and>
   map_of [(''A'', [''B'']), (''B'', [''C''])] ''B'' = Some [''C''] \<and>
   [''C''] = source_deps (TestSource [(''A'', [''B'']), (''B'', [''C'']), (''C'', [''D''])]) ''B''"
proof -
  have o: "open_source fixture_chain True =
     Inr (TestSource [(''A'', [''B'']), (''B'', [''C'']), (''C'', [''D''])])"
    by code_simp
  have b: "build_graph ''A'' fixture_chain True 2 = Inr ([(''A'', [''B'']), (''B'', [''C''])], [])"
    by code_simp
  have m: "map_of [(''A'', [''B'']), (''B'', [''C''])] ''B'' = Some [''C'']" by simp
  from build_graph_entries [OF o b m] o b m show ?thesis by blast
qed

end
